theory Spec2Isabelle
  imports Main "HOL-Library.Sublist"
begin

section \<open>JavaScript values seen by the route handler\<close>

text \<open>
  The request body and the project metadata are parsed JSON.  The handler only tests them
  for truthiness and passes them on, so a value is one of the primitive shapes or an opaque
  object (its serialised text).  \<open>JUndefined\<close> is what destructuring yields for a field that
  the body does not have.  A JSON number is observed only through \<open>!x\<close>, which is true
  exactly at zero.
\<close>

datatype jsval = JUndefined | JNull | JBool bool | JNum int | JStr string | JObj string

fun truthy :: "jsval \<Rightarrow> bool" where
  "truthy JUndefined = False"
| "truthy JNull = False"
| "truthy (JBool b) = b"
| "truthy (JNum n) = (n \<noteq> 0)"
| "truthy (JStr s) = (s \<noteq> [])"
| "truthy (JObj _) = True"

section \<open>Regular expressions\<close>

text \<open>
  The patterns of the two scanners use character classes, sequence, alternation and greedy
  quantifiers, with no capture group, anchor, look-around or back-reference.  Text is a list
  of 8-bit code units.  \<open>Cls True cs\<close> is the class \<open>[cs]\<close>, \<open>Cls False cs\<close> the negated
  class \<open>[^cs]\<close>; a literal character is a one-element class; \<open>Rep mn mx r\<close> is the
  greedy quantifier \<open>r{mn,mx}\<close>, with \<open>None\<close> for no upper bound.
\<close>

type_synonym cset = "char list"

datatype regex =
    Cls bool cset
  | Seq regex regex
  | Alt regex regex
  | Rep nat "nat option" regex

definition digits :: cset where
  "digits = ''0123456789''"

definition uppers :: cset where
  "uppers = ''ABCDEFGHIJKLMNOPQRSTUVWXYZ''"

definition lowers :: cset where
  "lowers = ''abcdefghijklmnopqrstuvwxyz''"

text \<open>
  Canonicalize of the \<open>i\<close> flag is upper-casing.  Every character written in the
  patterns below is ASCII, and no code unit from 128 on canonicalises to an ASCII one, so
  folding the 26 ASCII letters decides every comparison against a pattern character.  The
  lower-case letters are the code units 0x61 to 0x7A, that is bits 7, 6, 5 equal to 0, 1, 1
  and the low five bits from 1 to 26; the upper-case letter clears bit 5.
\<close>

fun canonicalize :: "char \<Rightarrow> char" where
  "canonicalize (Char b0 b1 b2 b3 b4 b5 b6 b7) =
     (if b5 \<and> b6 \<and> \<not> b7 \<and> (b0 \<or> b1 \<or> b2 \<or> b3 \<or> b4) \<and>
         \<not> (b4 \<and> b3 \<and> (b2 \<or> (b1 \<and> b0)))
      then Char b0 b1 b2 b3 b4 False b6 b7
      else Char b0 b1 b2 b3 b4 b5 b6 b7)"

definition cls_member :: "bool \<Rightarrow> cset \<Rightarrow> char \<Rightarrow> bool" where
  "cls_member ic cs c =
     (if ic then list_ex (\<lambda>a. canonicalize a = canonicalize c) cs
      else list_ex (\<lambda>a. a = c) cs)"

text \<open>
  A matcher maps the rest of the input at the current position to the rests after every way
  of matching there, in the order in which the backtracking engine tries them; the engine
  takes the first.  \<open>repeat_ends\<close> is RepeatMatcher: an iteration that consumes nothing is
  refused once the minimum is met, the greedy choice iterates before it stops.  The rest of
  the input only gets shorter; the first conjunct of the filter records that for the
  termination argument and never removes a result of a matcher (\<open>ends_suffix\<close> below).
\<close>

function repeat_ends ::
  "(string \<Rightarrow> string list) \<Rightarrow> nat \<Rightarrow> nat option \<Rightarrow> string \<Rightarrow> string list" where
  "repeat_ends m mn mx x =
     (if mx = Some 0 then [x]
      else
        let ys = filter (\<lambda>y. length y \<le> length x \<and> \<not> (mn = 0 \<and> length y = length x)) (m x);
            z = concat (map (repeat_ends m (mn - 1) (map_option (\<lambda>k. k - 1) mx)) ys)
        in if mn \<noteq> 0 then z else z @ [x])"
  by pat_completeness auto
termination
  by (relation "measure (\<lambda>(m, mn, mx, x). mn + length x)") auto

declare repeat_ends.simps [simp del]

primrec ends :: "bool \<Rightarrow> regex \<Rightarrow> string \<Rightarrow> string list" where
  "ends ic (Cls pos cs) =
     (\<lambda>x. case x of [] \<Rightarrow> [] | c # y \<Rightarrow> if cls_member ic cs c = pos then [y] else [])"
| "ends ic (Seq r1 r2) = (\<lambda>x. concat (map (ends ic r2) (ends ic r1 x)))"
| "ends ic (Alt r1 r2) = (\<lambda>x. ends ic r1 x @ ends ic r2 x)"
| "ends ic (Rep mn mx r) = (\<lambda>x. repeat_ends (ends ic r) mn mx x)"

text \<open>
  RegExpBuiltinExec from index 0: the first position, left to right, at which the pattern
  matches, with the engine's first match there.  The result is the matched text and the
  rest of the input after it.
\<close>

fun search :: "bool \<Rightarrow> regex \<Rightarrow> string \<Rightarrow> (string \<times> string) option" where
  "search ic r [] = (case ends ic r [] of [] \<Rightarrow> None | y # _ \<Rightarrow> Some ([], y))"
| "search ic r (c # x) =
     (case ends ic r (c # x) of
        [] \<Rightarrow> search ic r x
      | y # _ \<Rightarrow> Some (take (length (c # x) - length y) (c # x), y))"

lemma repeat_ends_suffix:
  "(\<forall>x y. y \<in> set (m x) \<longrightarrow> suffix y x) \<Longrightarrow> y \<in> set (repeat_ends m mn mx x) \<Longrightarrow> suffix y x"
proof (induction m mn mx x arbitrary: y rule: repeat_ends.induct)
  case (1 m mn mx x)
  show ?case
  proof (cases "mx = Some 0")
    case True
    with "1.prems" show ?thesis by (simp add: repeat_ends.simps)
  next
    case False
    from "1.prems"(2) False consider "y = x"
      | y' where "y' \<in> set (m x)" "length y' \<le> length x" "\<not> (mn = 0 \<and> length y' = length x)"
          "y \<in> set (repeat_ends m (mn - 1) (map_option (\<lambda>k. k - 1) mx) y')"
      by (subst (asm) repeat_ends.simps) (auto simp: Let_def split: if_splits)
    then show ?thesis
    proof cases
      case 1
      then show ?thesis by simp
    next
      case 2
      have "suffix y y'"
        using "1.IH" [OF False refl _ "1.prems"(1) 2(4)] 2 by simp
      moreover have "suffix y' x" using "1.prems"(1) 2(1) by blast
      ultimately show ?thesis by (rule suffix_order.trans)
    qed
  qed
qed

lemma ends_suffix: "y \<in> set (ends ic r x) \<Longrightarrow> suffix y x"
proof (induction r arbitrary: x y)
  case (Cls pos cs)
  then show ?case by (auto split: list.splits if_splits simp: suffix_Cons)
next
  case (Seq r1 r2)
  then obtain z where "z \<in> set (ends ic r1 x)" "y \<in> set (ends ic r2 z)" by auto
  with Seq.IH show ?case by (blast intro: suffix_order.trans)
next
  case (Alt r1 r2)
  then show ?case by auto
next
  case (Rep mn mx r)
  then show ?case using repeat_ends_suffix [of "ends ic r"] by auto
qed

lemma ends_length: "y \<in> set (ends ic r x) \<Longrightarrow> length y \<le> length x"
  by (drule ends_suffix) (auto simp: suffix_def)

text \<open>The length bound in the filter of \<open>repeat_ends\<close> holds of every result of a matcher.\<close>

lemma ends_Rep:
  "ends ic (Rep mn mx r) x =
     (if mx = Some 0 then [x]
      else
        let ys = filter (\<lambda>y. \<not> (mn = 0 \<and> length y = length x)) (ends ic r x);
            z = concat (map (ends ic (Rep (mn - 1) (map_option (\<lambda>k. k - 1) mx) r)) ys)
        in if mn \<noteq> 0 then z else z @ [x])"
proof -
  have "filter (\<lambda>y. length y \<le> length x \<and> \<not> (mn = 0 \<and> length y = length x)) (ends ic r x) =
        filter (\<lambda>y. \<not> (mn = 0 \<and> length y = length x)) (ends ic r x)"
    by (rule filter_cong) (auto dest: ends_length)
  then show ?thesis by (simp add: repeat_ends.simps [of "ends ic r" mn mx x])
qed

lemma search_Some:
  "search ic r x = Some (m, y) \<Longrightarrow>
     \<exists>p ys. x = p @ m @ y \<and> ends ic r (m @ y) = y # ys \<and> (\<forall>k < length p. ends ic r (drop k x) = [])"
proof (induction x)
  case Nil
  then obtain ys where "ends ic r [] = y # ys" "m = []" by (auto split: list.splits)
  moreover from this ends_suffix [of y ic r "[]"] have "y = []" by simp
  ultimately show ?case by simp
next
  case (Cons c x)
  show ?case
  proof (cases "ends ic r (c # x)")
    case Nil
    with Cons obtain p ys where p: "x = p @ m @ y" "ends ic r (m @ y) = y # ys"
      "\<forall>k < length p. ends ic r (drop k x) = []" by auto
    have "\<forall>k < length (c # p). ends ic r (drop k (c # x)) = []"
      using Nil p(3) by (auto simp: less_Suc_eq_0_disj)
    with p(1,2) show ?thesis by (intro exI [of _ "c # p"] exI [of _ ys]) simp
  next
    case (Cons y' ys)
    with Cons.prems have y: "y' = y" and m: "m = take (length (c # x) - length y) (c # x)" by auto
    have "suffix y (c # x)" using ends_suffix [of y ic r "c # x"] Cons y by simp
    then obtain q where q: "c # x = q @ y" by (auto simp: suffix_def)
    then have "m = q" using m by (metis append_eq_conv_conj length_append add_diff_cancel_right')
    with q Cons y show ?thesis by (intro exI [of _ "[]"] exI [of _ ys]) (simp flip: q)
  qed
qed

lemma search_None: "search ic r x = None \<Longrightarrow> ends ic r (drop k x) = []"
proof (induction x arbitrary: k)
  case Nil
  then show ?case by (auto split: list.splits)
next
  case (Cons c x)
  then show ?case by (cases k) (auto split: list.splits)
qed

lemma search_shorter:
  assumes "search ic r x = Some (m, y)"
  shows "length x = length (m @ y) + (length x - length (m @ y))" "length y \<le> length x" "m \<noteq> [] \<Longrightarrow> length y < length x"
  using search_Some [OF assms] by auto

section \<open>Pattern syntax\<close>

definition lit :: "string \<Rightarrow> regex" where
  "lit s = foldr Seq (map (\<lambda>c. Cls True [c]) (butlast s)) (Cls True [last s])"

definition seqs :: "regex list \<Rightarrow> regex" where
  "seqs rs = foldr Seq (butlast rs) (last rs)"

definition alts :: "regex list \<Rightarrow> regex" where
  "alts rs = foldr Alt (butlast rs) (last rs)"

definition rstar :: "regex \<Rightarrow> regex" where
  "rstar r = Rep 0 None r"

definition rplus :: "regex \<Rightarrow> regex" where
  "rplus r = Rep 1 None r"

definition ropt :: "regex \<Rightarrow> regex" where
  "ropt r = Rep 0 (Some 1) r"

definition quotes :: cset where
  "quotes = [CHR 0x27, CHR 0x22]"

text \<open>\<open>\s\<close>: tab, line feed, vertical tab, form feed, carriage return, space, no-break space.\<close>

definition white :: regex where
  "white = Cls True [CHR 0x09, CHR 0x0A, CHR 0x0B, CHR 0x0C, CHR 0x0D, CHR 0x20, CHR 0xA0]"

text \<open>\<open>.\<close>: anything but a line terminator.\<close>

definition dot :: regex where
  "dot = Cls False [CHR 0x0A, CHR 0x0D]"

text \<open>\<open>\w\<close>\<close>

definition wordchar :: regex where
  "wordchar = Cls True (lowers @ uppers @ digits @ ''_'')"

record pattern =
  re :: regex
  flag_g :: bool
  flag_i :: bool

section \<open>String.prototype.match\<close>

text \<open>
  With the \<open>g\<close> flag, \<open>match\<close> collects every match: each search resumes where the
  previous match ended, one code unit further on after an empty match, and stops when a
  search fails.
\<close>

function match_all :: "bool \<Rightarrow> regex \<Rightarrow> string \<Rightarrow> string list" where
  "match_all ic r x =
     (case search ic r x of
        None \<Rightarrow> []
      | Some (m, y) \<Rightarrow>
          m # (if m = [] then (case y of [] \<Rightarrow> [] | _ # y' \<Rightarrow> match_all ic r y')
               else match_all ic r y))"
  by pat_completeness auto
termination
proof (relation "measure (\<lambda>(ic, r, x). length x)", goal_cases)
  case 1
  show ?case by simp
next
  case (2 ic r x p m y c y')
  then show ?case using search_shorter(2) [of ic r x m y] by simp
next
  case (3 ic r x p m y)
  then show ?case using search_shorter(3) [of ic r x m y] by simp
qed

declare match_all.simps [simp del]

text \<open>
  \<open>str_match p x\<close> is \<open>x.match(p)\<close>: \<open>None\<close> is \<open>null\<close>.  With the \<open>g\<close> flag the array
  holds all matches and \<open>null\<close> stands for none; without it the array is the result of one
  search, whose only element is the matched text since no pattern has a capture group.
\<close>

definition str_match :: "pattern \<Rightarrow> string \<Rightarrow> string list option" where
  "str_match p x =
     (if flag_g p then
        (case match_all (flag_i p) (re p) x of [] \<Rightarrow> None | m # ms \<Rightarrow> Some (m # ms))
      else
        (case search (flag_i p) (re p) x of None \<Rightarrow> None | Some (m, _) \<Rightarrow> Some [m]))"

section \<open>findLineNumber\<close>

text \<open>\<open>content.split('\n')\<close>: the empty string gives one empty line.\<close>

fun split_lines :: "string \<Rightarrow> string list" where
  "split_lines [] = [[]]"
| "split_lines (c # x) =
     (if c = CHR 0x0A then [] # split_lines x
      else (case split_lines x of l # ls \<Rightarrow> (c # l) # ls | [] \<Rightarrow> [[c]]))"

text \<open>\<open>s.includes(m)\<close>: \<open>m\<close> occurs in \<open>s\<close> at some position.\<close>

fun str_includes :: "string \<Rightarrow> string \<Rightarrow> bool" where
  "str_includes [] m = (m = [])"
| "str_includes (c # s) m = (prefix m (c # s) \<or> str_includes s m)"

text \<open>The loop of \<open>findLineNumber\<close> from index \<open>i\<close> on, over the lines left.\<close>

fun find_from :: "nat \<Rightarrow> string list \<Rightarrow> string \<Rightarrow> nat" where
  "find_from i [] m = 1"
| "find_from i (l # ls) m = (if str_includes l m then i + 1 else find_from (i + 1) ls m)"

definition findLineNumber :: "string \<Rightarrow> string \<Rightarrow> nat" where
  "findLineNumber content m = find_from 0 (split_lines content) m"

section \<open>scanFiles\<close>

text \<open>
  An entry of the tree listing, and a finding.  The fields \<open>id\<close>, \<open>type\<close> and \<open>file\<close> of
  a finding are called \<open>vid\<close>, \<open>vtype\<close> and \<open>vfile\<close> here: \<open>id\<close> is the identity
  function of HOL, \<open>type\<close> is the field of a tree entry, \<open>file\<close> is a keyword.
\<close>

record file_entry =
  type :: string
  path :: string

record vulnerability =
  vid :: nat
  title :: string
  severity :: string
  vtype :: string
  vfile :: string
  line :: nat
  description :: string
  impact :: string

definition secrets :: "pattern list" where
  "secrets =
    [\<lparr>re = seqs
        [alts [lit ''password'', lit ''secret'', lit ''key'', lit ''token'',
               seqs [lit ''api'', ropt (Cls True ''_-''), lit ''key''],
               seqs [lit ''aws'', ropt (Cls True ''_-''), lit ''key''],
               seqs [lit ''private'', ropt (Cls True ''_-''), lit ''key'']],
         rstar white, Cls True ''=:'', rstar white,
         Cls True quotes, rplus (Cls False quotes), Cls True quotes],
      flag_g = True, flag_i = True\<rparr>,
     \<lparr>re = seqs
        [lit ''BEGIN'', rplus white,
         alts [lit ''RSA'', lit ''DSA'', lit ''EC'', lit ''OPENSSH''],
         rplus white, lit ''PRIVATE'', rplus white, lit ''KEY''],
      flag_g = False, flag_i = True\<rparr>,
     \<lparr>re = seqs
        [alts [lit ''ssh-rsa'', lit ''ssh-dss'', lit ''ssh-ed25519''], rplus white,
         rplus (Cls True (uppers @ lowers @ digits @ ''+/'')), Rep 0 (Some 3) (Cls True ''=''),
         rplus white, rplus (Cls False ''@''), lit ''@'', rplus (Cls False ''@'')],
      flag_g = False, flag_i = True\<rparr>]"

definition sqlInjection :: "pattern list" where
  "sqlInjection =
    [\<lparr>re = seqs
        [alts [lit ''SELECT'', lit ''INSERT'', lit ''UPDATE'', lit ''DELETE'', lit ''DROP'',
               lit ''UNION''],
         rplus white, rstar dot, lit ''FROM'', rplus white, rstar dot, lit ''WHERE'',
         rplus white, rstar dot, Cls True quotes, rstar (Cls False quotes), Cls True quotes],
      flag_g = True, flag_i = True\<rparr>]"

definition xss :: "pattern list" where
  "xss =
    [\<lparr>re = alts
        [lit ''<script'', lit ''javascript:'',
         seqs [lit ''on'', rplus wordchar, rstar white, lit ''='']],
      flag_g = True, flag_i = True\<rparr>]"

text \<open>The three object literals pushed by the three loops.\<close>

definition secret_finding :: "nat \<Rightarrow> string \<Rightarrow> nat \<Rightarrow> vulnerability" where
  "secret_finding n p l =
     \<lparr>vid = n, title = ''Potential Secret Exposure in '' @ p, severity = ''Critical'',
      vtype = ''Secret Exposure'', vfile = p, line = l,
      description = ''Sensitive information or credentials found in code.'',
      impact = ''Potential exposure of sensitive data or credentials.''\<rparr>"

definition sql_finding :: "nat \<Rightarrow> string \<Rightarrow> nat \<Rightarrow> vulnerability" where
  "sql_finding n p l =
     \<lparr>vid = n, title = ''Potential SQL Injection in '' @ p, severity = ''High'',
      vtype = ''Code Vulnerability'', vfile = p, line = l,
      description = ''Unsanitized SQL query detected.'',
      impact = ''Potential database compromise.''\<rparr>"

definition xss_finding :: "nat \<Rightarrow> string \<Rightarrow> nat \<Rightarrow> vulnerability" where
  "xss_finding n p l =
     \<lparr>vid = n, title = ''Potential XSS Vulnerability in '' @ p, severity = ''High'',
      vtype = ''Code Vulnerability'', vfile = p, line = l,
      description = ''Potential cross-site scripting vulnerability detected.'',
      impact = ''Potential client-side code execution.''\<rparr>"

text \<open>
  The body of each inner loop: \<open>matches\<close> is \<open>null\<close> or a non-empty array, and the finding
  takes its line from \<open>matches[0]\<close>.
\<close>

definition check ::
  "(nat \<Rightarrow> string \<Rightarrow> nat \<Rightarrow> vulnerability) \<Rightarrow> string \<Rightarrow> string \<Rightarrow> pattern \<Rightarrow>
   vulnerability list \<Rightarrow> vulnerability list" where
  "check finding p content pat vulnerabilities =
     (case str_match pat content of
        None \<Rightarrow> vulnerabilities
      | Some matches \<Rightarrow>
          vulnerabilities @
          [finding (length vulnerabilities + 1) p (findLineNumber content (hd matches))])"

definition scan_content :: "string \<Rightarrow> string \<Rightarrow> vulnerability list \<Rightarrow> vulnerability list" where
  "scan_content p content vulnerabilities =
     (let v1 = fold (check secret_finding p content) secrets vulnerabilities;
          v2 = fold (check sql_finding p content) sqlInjection v1;
          v3 = fold (check xss_finding p content) xss v2
      in v3)"

section \<open>The GitLab client\<close>

text \<open>
  The answer of the server to one request: the request is rejected (no response at all), or
  there is a response with its \<open>ok\<close> flag, its status text, and its body as read by
  \<open>text()\<close> or \<open>json()\<close>, \<open>None\<close> when reading it throws.
\<close>

datatype 'a http_response = NetworkFailure | Response bool string "'a option"

datatype error = FetchRejected | GitLabApiError string | BodyRejected

definition api_fetch :: "'a http_response \<Rightarrow> error + 'a" where
  "api_fetch response =
     (case response of
        NetworkFailure \<Rightarrow> Inl FetchRejected
      | Response ok statusText b \<Rightarrow>
          if \<not> ok then Inl (GitLabApiError (''GitLab API error: '' @ statusText))
          else (case b of None \<Rightarrow> Inl BodyRejected | Some v \<Rightarrow> Inr v))"

text \<open>
  A repository snapshot as the server presents it: what each of the three endpoints answers,
  given the token and the arguments of the call.  The tree endpoint answers with an array of
  tree entries (the \<open>any[]\<close> that \<open>scanFiles\<close> takes), each with a \<open>type\<close> and a \<open>path\<close>.
\<close>

record gitlab =
  project_endpoint :: "jsval \<Rightarrow> jsval \<Rightarrow> jsval http_response"
  tree_endpoint :: "jsval \<Rightarrow> jsval \<Rightarrow> file_entry list http_response"
  raw_endpoint :: "jsval \<Rightarrow> jsval \<Rightarrow> string \<Rightarrow> string http_response"

datatype api_call = GetProject jsval | GetRepositoryFiles jsval | GetFileContent jsval string

definition getProject :: "gitlab \<Rightarrow> jsval \<Rightarrow> jsval \<Rightarrow> error + jsval" where
  "getProject srv token projectPath = api_fetch (project_endpoint srv token projectPath)"

definition getRepositoryFiles :: "gitlab \<Rightarrow> jsval \<Rightarrow> jsval \<Rightarrow> error + file_entry list" where
  "getRepositoryFiles srv token projectPath = api_fetch (tree_endpoint srv token projectPath)"

definition getFileContent :: "gitlab \<Rightarrow> jsval \<Rightarrow> jsval \<Rightarrow> string \<Rightarrow> error + string" where
  "getFileContent srv token projectPath filePath =
     api_fetch (raw_endpoint srv token projectPath filePath)"

text \<open>
  One turn of the loop over the files.  The state is the array of findings so far and the
  calls made to the client so far.  An entry that is not a blob is passed over before any
  call; an error thrown in the \<open>try\<close> block is logged and the loop goes on.
\<close>

definition scan_file ::
  "gitlab \<Rightarrow> jsval \<Rightarrow> jsval \<Rightarrow> file_entry \<Rightarrow>
   vulnerability list \<times> api_call list \<Rightarrow> vulnerability list \<times> api_call list" where
  "scan_file srv token projectPath f st =
     (case st of (vulnerabilities, calls) \<Rightarrow>
        if type f \<noteq> ''blob'' then (vulnerabilities, calls)
        else
          (case getFileContent srv token projectPath (path f) of
             Inl e \<Rightarrow> (vulnerabilities, calls @ [GetFileContent projectPath (path f)])
           | Inr content \<Rightarrow>
               (scan_content (path f) content vulnerabilities,
                calls @ [GetFileContent projectPath (path f)])))"

definition scanFiles ::
  "file_entry list \<Rightarrow> gitlab \<Rightarrow> jsval \<Rightarrow> jsval \<Rightarrow> api_call list \<Rightarrow>
   vulnerability list \<times> api_call list" where
  "scanFiles files srv token projectPath calls =
     fold (scan_file srv token projectPath) files ([], calls)"

section \<open>The scan route\<close>

record stats =
  totalFiles :: nat
  scannedFiles :: nat
  vulnerabilities :: nat
  critical :: nat
  high :: nat
  medium :: nat
  low :: nat

record report =
  project :: jsval
  stats :: stats
  findings :: "vulnerability list"

datatype reply_body = Message string | Report report

record reply =
  status :: nat
  body :: reply_body

text \<open>
  What \<open>request.json()\<close> and the destructuring give: the body is not JSON, or it is
  \<open>null\<close> (both throw), or the two fields are read, \<open>JUndefined\<close> for a missing one.
\<close>

datatype request_body = Malformed | BodyNull | Body jsval jsval

definition failed :: reply where
  "failed = \<lparr>status = 500, body = Message ''Failed to scan repository''\<rparr>"

definition POST :: "gitlab \<Rightarrow> request_body \<Rightarrow> reply \<times> api_call list" where
  "POST srv request =
     (case request of
        Malformed \<Rightarrow> (failed, [])
      | BodyNull \<Rightarrow> (failed, [])
      | Body projectPath token \<Rightarrow>
          if \<not> truthy projectPath \<or> \<not> truthy token then
            (\<lparr>status = 400, body = Message ''Project path and token are required''\<rparr>, [])
          else
            (case getProject srv token projectPath of
               Inl e \<Rightarrow> (failed, [GetProject projectPath])
             | Inr proj \<Rightarrow>
                 if \<not> truthy proj then
                   (\<lparr>status = 404, body = Message ''Repository not found''\<rparr>,
                    [GetProject projectPath])
                 else
                   (case getRepositoryFiles srv token projectPath of
                      Inl e \<Rightarrow>
                        (failed, [GetProject projectPath, GetRepositoryFiles projectPath])
                    | Inr files \<Rightarrow>
                        (case scanFiles files srv token projectPath
                                [GetProject projectPath, GetRepositoryFiles projectPath] of
                           (vs, calls) \<Rightarrow>
                             (\<lparr>status = 200,
                               body = Report
                                 \<lparr>project = proj,
                                  stats =
                                    \<lparr>totalFiles = length files,
                                     scannedFiles = length files,
                                     vulnerabilities = length vs,
                                     critical = length (filter (\<lambda>v. severity v = ''Critical'') vs),
                                     high = length (filter (\<lambda>v. severity v = ''High'') vs),
                                     medium = length (filter (\<lambda>v. severity v = ''Medium'') vs),
                                     low = length (filter (\<lambda>v. severity v = ''Low'') vs)\<rparr>,
                                  findings = vs\<rparr>\<rparr>,
                              calls)))))"

section \<open>scanForSecrets\<close>

definition secret_patterns :: "pattern list" where
  "secret_patterns =
    [\<lparr>re = seqs [lit ''AKIA'', Rep 16 (Some 16) (Cls True (digits @ uppers))],
      flag_g = True, flag_i = False\<rparr>,
     \<lparr>re = seqs [lit ''ghp_'', Rep 36 (Some 36) (Cls True (digits @ lowers @ uppers))],
      flag_g = True, flag_i = False\<rparr>,
     \<lparr>re = seqs
        [Cls True [CHR 0x22], lit ''secret'', Cls True [CHR 0x22], rstar white, lit '':'',
         rstar white, Cls True [CHR 0x22], rplus (Cls False [CHR 0x22]), Cls True [CHR 0x22]],
      flag_g = True, flag_i = False\<rparr>]"

definition scanForSecrets :: "string \<Rightarrow> string list" where
  "scanForSecrets code =
     fold (\<lambda>regex findings.
             case str_match regex code of None \<Rightarrow> findings | Some matches \<Rightarrow> findings @ matches)
          secret_patterns []"

section \<open>Notions used to state the properties\<close>

text \<open>The occurrences of a pattern in a text, as a global search finds them, left to right.\<close>

definition occurrences :: "pattern \<Rightarrow> string \<Rightarrow> string list" where
  "occurrences pat x = match_all (flag_i pat) (re pat) x"

text \<open>
  An occurrence of a pattern in a text: at position \<open>k\<close> the text reads \<open>m\<close>, and the
  pattern matches \<open>m\<close> from its first character to its last.
\<close>

definition occurs_at :: "pattern \<Rightarrow> string \<Rightarrow> nat \<Rightarrow> string \<Rightarrow> bool" where
  "occurs_at pat x k m \<longleftrightarrow>
     k + length m \<le> length x \<and> take (length m) (drop k x) = m \<and>
     [] \<in> set (ends (flag_i pat) (re pat) m)"

text \<open>
  The match that the engine takes at the start of a text: \<open>m\<close> followed by \<open>rest\<close>, when
  the first of the ways of matching there leaves \<open>rest\<close>.
\<close>

definition first_choice :: "pattern \<Rightarrow> string \<Rightarrow> string \<Rightarrow> bool" where
  "first_choice pat m rest =
     (case ends (flag_i pat) (re pat) (m @ rest) of [] \<Rightarrow> False | y # _ \<Rightarrow> y = rest)"

text \<open>
  The matches of a global search, said without the loop: when the pattern occurs nowhere in
  the text there is none; otherwise the first one is the match that the engine takes at the
  least position at which the pattern occurs, it is not empty, and the others are the matches
  of a global search in the text after it.
\<close>

inductive global_matches :: "pattern \<Rightarrow> string \<Rightarrow> string list \<Rightarrow> bool" for pat where
  none: "(\<forall>k m. \<not> occurs_at pat x k m) \<Longrightarrow> global_matches pat x []"
| more: "x = p @ m @ rest \<Longrightarrow> occurs_at pat x (length p) m \<Longrightarrow>
         (\<forall>k m'. occurs_at pat x k m' \<longrightarrow> length p \<le> k) \<Longrightarrow>
         first_choice pat m rest \<Longrightarrow> m \<noteq> [] \<Longrightarrow>
         global_matches pat rest ms \<Longrightarrow> global_matches pat x (m # ms)"


text \<open>The inverse of splitting: the lines joined by line feeds.\<close>

fun join_lines :: "string list \<Rightarrow> string" where
  "join_lines [] = []"
| "join_lines [l] = l"
| "join_lines (l # ls) = l @ CHR 0x0A # join_lines ls"

text \<open>The number of entries of a file list that are blobs.\<close>

definition blob_count :: "file_entry list \<Rightarrow> nat" where
  "blob_count files = length (filter (\<lambda>f. type f = ''blob'') files)"

text \<open>The number of entries that are blobs and whose content the client delivers.\<close>

definition fetched_count :: "gitlab \<Rightarrow> jsval \<Rightarrow> jsval \<Rightarrow> file_entry list \<Rightarrow> nat" where
  "fetched_count srv token projectPath files =
     length (filter (\<lambda>f. type f = ''blob'' \<and> \<not> isl (getFileContent srv token projectPath (path f)))
               files)"

text \<open>The report of a reply, if it carries one.\<close>

definition report_of :: "reply \<Rightarrow> report option" where
  "report_of rep = (case body rep of Report r \<Rightarrow> Some r | Message _ \<Rightarrow> None)"

text \<open>What a scan adds for one file: findings of that file, of severity Critical or High.\<close>

definition new_for :: "string \<Rightarrow> vulnerability list \<Rightarrow> bool" where
  "new_for p new =
     list_all (\<lambda>v. vfile v = p \<and> (severity v = ''Critical'' \<or> severity v = ''High'')) new"

text \<open>
  The invariant of the loop: every finding belongs to a blob entry of the list whose content
  the client delivered, and its severity is Critical or High.
\<close>

definition from_files :: "gitlab \<Rightarrow> jsval \<Rightarrow> jsval \<Rightarrow> file_entry list \<Rightarrow> vulnerability \<Rightarrow> bool" where
  "from_files srv token projectPath files v =
     ((severity v = ''Critical'' \<or> severity v = ''High'') \<and>
      list_ex (\<lambda>f. type f = ''blob'' \<and> path f = vfile v \<and>
                 \<not> isl (getFileContent srv token projectPath (path f))) files)"

section \<open>Scenarios\<close>

definition sql_text :: string where
  "sql_text = ''SELECT * FROM users WHERE name = '' @ [CHR 0x27] @ ''admin'' @ [CHR 0x27]"

definition demo_project :: jsval where
  "demo_project = JObj ''{name: demo}''"

text \<open>
  A server that knows one project, whose tree is \<open>files\<close> and whose raw endpoint answers
  \<open>raw\<close>; any other project path gets the answer \<open>404 Not Found\<close>.
\<close>

definition server :: "file_entry list \<Rightarrow> (string \<Rightarrow> string http_response) \<Rightarrow> gitlab" where
  "server files raw =
     \<lparr>project_endpoint =
        (\<lambda>token projectPath.
           if projectPath = JStr ''group/demo'' then Response True ''OK'' (Some demo_project)
           else Response False ''Not Found'' (Some (JObj ''{message: 404 Project Not Found}''))),
      tree_endpoint =
        (\<lambda>token projectPath.
           if projectPath = JStr ''group/demo'' then Response True ''OK'' (Some files)
           else Response False ''Not Found'' None),
      raw_endpoint = (\<lambda>token projectPath filePath. raw filePath)\<rparr>"

definition demo_request :: request_body where
  "demo_request = Body (JStr ''group/demo'') (JStr ''glpat-demo'')"

text \<open>A blob whose content cannot be read: the response arrives, reading its body throws.\<close>

definition binary_repo :: gitlab where
  "binary_repo = server [\<lparr>type = ''blob'', path = ''logo.bin''\<rparr>] (\<lambda>p. Response True ''OK'' None)"

text \<open>A tree with one directory and no blob.\<close>

definition directory_repo :: gitlab where
  "directory_repo = server [\<lparr>type = ''tree'', path = ''src''\<rparr>] (\<lambda>p. Response True ''OK'' (Some []))"

text \<open>A directory and the file \<open>db.sql\<close> of the specification's second scenario.\<close>

definition sql_repo :: gitlab where
  "sql_repo =
     server [\<lparr>type = ''tree'', path = ''src''\<rparr>, \<lparr>type = ''blob'', path = ''db.sql''\<rparr>]
       (\<lambda>p. Response True ''OK'' (Some sql_text))"





text \<open>A text with two AWS access keys, one after the other.\<close>

definition two_keys :: string where
  "two_keys = ''AKIA0123456789ABCDEF AKIA0123456789ABCDEG''"

text \<open>A text in which an AWS access key starts inside another one.\<close>

definition aws_text :: string where
  "aws_text = ''AKIAAKIA0123456789012345''"

section \<open>Case folding\<close>

lemma canonicalize_lowers: "map canonicalize lowers = uppers"
  by (simp add: lowers_def uppers_def)

lemma canonicalize_fixed: "c \<notin> set lowers \<Longrightarrow> canonicalize c = c"
proof (cases c)
  case (Char b0 b1 b2 b3 b4 b5 b6 b7)
  assume c: "c \<notin> set lowers"
  show ?thesis
  proof (rule ccontr)
    assume "canonicalize c \<noteq> c"
    with Char have b: "b5" "b6" "\<not> b7" "b0 \<or> b1 \<or> b2 \<or> b3 \<or> b4" "\<not> (b4 \<and> b3 \<and> (b2 \<or> (b1 \<and> b0)))"
      by (auto split: if_splits)
    have "Char b0 b1 b2 b3 b4 True True False \<in> set lowers"
      using b(4,5) by (cases b0; cases b1; cases b2; cases b3; cases b4; simp add: lowers_def)
    with c Char b show False by simp
  qed
qed

section \<open>The line locator\<close>

lemma split_lines_not_Nil: "split_lines x \<noteq> []"
  by (induction x) (auto split: list.splits)

lemma join_lines_Cons: "ls \<noteq> [] \<Longrightarrow> join_lines (l # ls) = l @ CHR 0x0A # join_lines ls"
  by (cases ls) simp_all

lemma join_split_lines: "join_lines (split_lines x) = x"
proof (induction x)
  case Nil
  show ?case by simp
next
  case (Cons c x)
  show ?case
  proof (cases "c = CHR 0x0A")
    case True
    with Cons show ?thesis by (simp add: join_lines_Cons split_lines_not_Nil)
  next
    case False
    obtain l ls where s: "split_lines x = l # ls"
      using split_lines_not_Nil [of x] by (cases "split_lines x") auto
    with Cons False show ?thesis by (cases ls) auto
  qed
qed

lemma split_lines_no_newline: "l \<in> set (split_lines x) \<Longrightarrow> CHR 0x0A \<notin> set l"
  by (induction x arbitrary: l) (auto split: list.splits if_splits)

lemma split_join_lines:
  "ls \<noteq> [] \<Longrightarrow> \<forall>l \<in> set ls. CHR 0x0A \<notin> set l \<Longrightarrow> split_lines (join_lines ls) = ls"
proof (induction ls rule: join_lines.induct)
  case 1
  then show ?case by simp
next
  case (2 l)
  then show ?case by (induction l) auto
next
  case (3 l k ls)
  then have "split_lines (join_lines (k # ls)) = k # ls" by simp
  with 3(3) show ?case by (induction l) auto
qed

lemma str_includes_sublist: "str_includes s m \<longleftrightarrow> sublist m s"
  by (induction s) (auto simp: sublist_Cons_right)

lemma find_from_none: "\<forall>l \<in> set ls. \<not> str_includes l m \<Longrightarrow> find_from k ls m = 1"
  by (induction ls arbitrary: k) auto

lemma find_from_first:
  "\<exists>l \<in> set ls. str_includes l m \<Longrightarrow>
     \<exists>i < length ls. find_from k ls m = k + i + 1 \<and> str_includes (ls ! i) m \<and>
       (\<forall>j < i. \<not> str_includes (ls ! j) m)"
proof (induction ls arbitrary: k)
  case Nil
  then show ?case by simp
next
  case (Cons l ls)
  show ?case
  proof (cases "str_includes l m")
    case True
    then show ?thesis by (intro exI [of _ 0]) simp
  next
    case False
    with Cons.prems have "\<exists>l \<in> set ls. str_includes l m" by auto
    from Cons.IH [OF this, of "k + 1"] obtain i where i: "i < length ls"
      "find_from (k + 1) ls m = k + 1 + i + 1" "str_includes (ls ! i) m"
      "\<forall>j < i. \<not> str_includes (ls ! j) m" by blast
    show ?thesis
    proof (intro exI [of _ "Suc i"] conjI allI impI)
      fix j assume "j < Suc i"
      with i(4) False show "\<not> str_includes ((l # ls) ! j) m" by (cases j) auto
    qed (use i False in auto)
  qed
qed

text \<open>
  C5.  The lines that \<open>findLineNumber\<close> searches are the content split at its line feeds:
  joined by line feeds they give the content back, and none contains a line feed.  If some
  line contains the matched text as a substring, the result is the 1-based index of the first
  such line; if none does, the result is 1.
\<close>

theorem findLineNumber_first_line:
  "join_lines (split_lines content) = content \<and>
   (\<forall>l \<in> set (split_lines content). CHR 0x0A \<notin> set l) \<and>
   ((\<exists>l \<in> set (split_lines content). sublist m l) \<longrightarrow>
      (\<exists>i < length (split_lines content).
         findLineNumber content m = i + 1 \<and> sublist m (split_lines content ! i) \<and>
         (\<forall>j < i. \<not> sublist m (split_lines content ! j)))) \<and>
   ((\<forall>l \<in> set (split_lines content). \<not> sublist m l) \<longrightarrow> findLineNumber content m = 1)"
  using find_from_first [of "split_lines content" m 0] find_from_none [of "split_lines content" m 0]
  by (simp add: findLineNumber_def str_includes_sublist join_split_lines split_lines_no_newline)

theorem findLineNumber_first_line_witness:
  "findLineNumber ''ab\<newline>cd\<newline>xcd'' ''cd'' = 2 \<and> findLineNumber ''ab\<newline>cd'' ''zz'' = 1"
proof -
  have s: "split_lines ''ab\<newline>cd\<newline>xcd'' = [''ab'', ''cd'', ''xcd'']" by simp
  have "\<exists>l \<in> set (split_lines ''ab\<newline>cd\<newline>xcd''). sublist ''cd'' l"
    unfolding s by (simp add: str_includes_sublist [symmetric])
  with findLineNumber_first_line [of "''ab\<newline>cd\<newline>xcd''" "''cd''"]
  obtain i where i: "i < 3" "findLineNumber ''ab\<newline>cd\<newline>xcd'' ''cd'' = i + 1"
    "sublist ''cd'' ([''ab'', ''cd'', ''xcd''] ! i)" "\<forall>j < i. \<not> sublist ''cd'' ([''ab'', ''cd'', ''xcd''] ! j)"
    unfolding s by auto
  have "i = 1"
  proof -
    have "\<not> sublist ''cd'' ([''ab'', ''cd'', ''xcd''] ! 0)" by (simp add: str_includes_sublist [symmetric])
    with i(3) have "i \<noteq> 0" by (intro notI) simp
    moreover have "sublist ''cd'' ([''ab'', ''cd'', ''xcd''] ! 1)" by (simp add: str_includes_sublist [symmetric])
    with i(4) have "\<not> 1 < i" by blast
    ultimately show ?thesis by simp
  qed
  moreover have "\<forall>l \<in> set (split_lines ''ab\<newline>cd''). \<not> sublist ''zz'' l"
    by (simp add: str_includes_sublist [symmetric])
  with findLineNumber_first_line [of "''ab\<newline>cd''" "''zz''"] have "findLineNumber ''ab\<newline>cd'' ''zz'' = 1" by blast
  ultimately show ?thesis using i(2) by simp
qed

section \<open>A match does not depend on the text after it\<close>

lemma repeat_ends_extend:
  "(\<forall>x y. y \<in> set (m x) \<longrightarrow> y @ z \<in> set (m (x @ z))) \<Longrightarrow>
   y \<in> set (repeat_ends m mn mx x) \<Longrightarrow> y @ z \<in> set (repeat_ends m mn mx (x @ z))"
proof (induction m mn mx x arbitrary: y rule: repeat_ends.induct)
  case (1 m mn mx x)
  show ?case
  proof (cases "mx = Some 0")
    case True
    with "1.prems" show ?thesis by (simp add: repeat_ends.simps)
  next
    case False
    from "1.prems"(2) False consider (stop) "mn = 0" "y = x"
      | (iter) y' where "y' \<in> set (m x)" "length y' \<le> length x" "\<not> (mn = 0 \<and> length y' = length x)"
          "y \<in> set (repeat_ends m (mn - 1) (map_option (\<lambda>k. k - 1) mx) y')"
      by (subst (asm) repeat_ends.simps) (auto simp: Let_def split: if_splits)
    then show ?thesis
    proof cases
      case stop
      with False show ?thesis by (subst repeat_ends.simps) (simp add: Let_def)
    next
      case iter
      have "y @ z \<in> set (repeat_ends m (mn - 1) (map_option (\<lambda>k. k - 1) mx) (y' @ z))"
        using "1.IH" [OF False refl _ "1.prems"(1) iter(4)] iter by simp
      moreover have "y' @ z \<in> set (m (x @ z))" using "1.prems"(1) iter(1) by blast
      ultimately show ?thesis
        using False iter(2,3) by (subst repeat_ends.simps) (auto simp: Let_def)
    qed
  qed
qed

lemma ends_extend: "y \<in> set (ends ic r x) \<Longrightarrow> y @ z \<in> set (ends ic r (x @ z))"
proof (induction r arbitrary: x y)
  case (Cls pos cs)
  then show ?case by (auto split: list.splits if_splits)
next
  case (Seq r1 r2)
  then obtain u where "u \<in> set (ends ic r1 x)" "y \<in> set (ends ic r2 u)" by auto
  with Seq.IH have "u @ z \<in> set (ends ic r1 (x @ z))" "y @ z \<in> set (ends ic r2 (u @ z))"
    by blast+
  then show ?case by auto
next
  case (Alt r1 r2)
  then show ?case by auto
next
  case (Rep mn mx r)
  then show ?case using repeat_ends_extend [of "ends ic r" z] by auto
qed

lemma repeat_ends_restrict:
  "(\<forall>x y. y \<in> set (m x) \<longrightarrow> suffix y x) \<Longrightarrow>
   (\<forall>x t. t \<in> set (m (x @ z)) \<longrightarrow> length z \<le> length t \<longrightarrow> (\<exists>y. t = y @ z \<and> y \<in> set (m x))) \<Longrightarrow>
   t \<in> set (repeat_ends m mn mx (x @ z)) \<Longrightarrow> length z \<le> length t \<Longrightarrow>
   \<exists>y. t = y @ z \<and> y \<in> set (repeat_ends m mn mx x)"
proof (induction m mn mx x arbitrary: t rule: repeat_ends.induct)
  case (1 m mn mx x)
  show ?case
  proof (cases "mx = Some 0")
    case True
    with "1.prems" show ?thesis by (simp add: repeat_ends.simps)
  next
    case False
    from "1.prems"(3) False consider (stop) "mn = 0" "t = x @ z"
      | (iter) t' where "t' \<in> set (m (x @ z))" "length t' \<le> length (x @ z)"
          "\<not> (mn = 0 \<and> length t' = length (x @ z))"
          "t \<in> set (repeat_ends m (mn - 1) (map_option (\<lambda>k. k - 1) mx) t')"
      by (subst (asm) repeat_ends.simps) (auto simp: Let_def split: if_splits)
    then show ?thesis
    proof cases
      case stop
      with False show ?thesis by (subst repeat_ends.simps) (simp add: Let_def)
    next
      case iter
      have "length t \<le> length t'"
        using repeat_ends_suffix [OF "1.prems"(1) iter(4)] by (auto simp: suffix_def)
      with "1.prems"(4) have "length z \<le> length t'" by simp
      with "1.prems"(2) iter(1) obtain y' where y': "t' = y' @ z" "y' \<in> set (m x)" by blast
      with iter(2,3) have f: "length y' \<le> length x" "\<not> (mn = 0 \<and> length y' = length x)" by auto
      have "\<exists>y. t = y @ z \<and> y \<in> set (repeat_ends m (mn - 1) (map_option (\<lambda>k. k - 1) mx) y')"
      proof (rule "1.IH" [OF False refl _ "1.prems"(1,2) _ "1.prems"(4)])
        show "y' \<in> set (filter (\<lambda>y. length y \<le> length x \<and> \<not> (mn = 0 \<and> length y = length x)) (m x))"
          using y'(2) f by simp
        show "t \<in> set (repeat_ends m (mn - 1) (map_option (\<lambda>k. k - 1) mx) (y' @ z))"
          using iter(4) y'(1) by simp
      qed
      then obtain y where "t = y @ z" "y \<in> set (repeat_ends m (mn - 1) (map_option (\<lambda>k. k - 1) mx) y')"
        by blast
      with y'(2) f False show ?thesis by (subst repeat_ends.simps) (auto simp: Let_def)
    qed
  qed
qed

lemma ends_restrict:
  "t \<in> set (ends ic r (x @ z)) \<Longrightarrow> length z \<le> length t \<Longrightarrow>
     \<exists>y. t = y @ z \<and> y \<in> set (ends ic r x)"
proof (induction r arbitrary: x t)
  case (Cls pos cs)
  then show ?case by (cases x) (auto split: list.splits if_splits)
next
  case (Seq r1 r2)
  then obtain u where u: "u \<in> set (ends ic r1 (x @ z))" "t \<in> set (ends ic r2 u)" by auto
  have "length t \<le> length u" using ends_length [OF u(2)] .
  with Seq.prems(2) have "length z \<le> length u" by simp
  from Seq.IH(1) [OF u(1) this] obtain u' where u': "u = u' @ z" "u' \<in> set (ends ic r1 x)"
    by blast
  from Seq.IH(2) [of t u'] u(2) u'(1) Seq.prems(2) obtain y
    where "t = y @ z" "y \<in> set (ends ic r2 u')" by blast
  with u'(2) show ?case by auto
next
  case (Alt r1 r2)
  from Alt.prems(1) have "t \<in> set (ends ic r1 (x @ z)) \<or> t \<in> set (ends ic r2 (x @ z))" by simp
  with Alt.IH Alt.prems(2) show ?case by fastforce
next
  case (Rep mn mx r)
  have "\<forall>x y. y \<in> set (ends ic r x) \<longrightarrow> suffix y x" using ends_suffix by blast
  moreover have "\<forall>x t. t \<in> set (ends ic r (x @ z)) \<longrightarrow> length z \<le> length t \<longrightarrow>
      (\<exists>y. t = y @ z \<and> y \<in> set (ends ic r x))"
    using Rep.IH by blast
  ultimately show ?case
    using repeat_ends_restrict [of "ends ic r" z t mn mx x] Rep.prems by simp
qed

text \<open>The matched text of a match is matched on its own, whatever follows it.\<close>

lemma ends_whole: "y \<in> set (ends ic r (m @ y)) \<longleftrightarrow> [] \<in> set (ends ic r m)"
  using ends_restrict [of y ic r m y] ends_extend [of "[]" ic r m y] by auto

section \<open>Searches and occurrences\<close>

lemma occurs_at_split:
  "occurs_at pat x k m \<longleftrightarrow>
     (\<exists>p s. x = p @ m @ s \<and> length p = k \<and> [] \<in> set (ends (flag_i pat) (re pat) m))"
proof
  assume o: "occurs_at pat x k m"
  then have "x = take k x @ m @ drop (length m) (drop k x)" "length (take k x) = k"
    unfolding occurs_at_def by (metis append_take_drop_id, simp)
  with o show "\<exists>p s. x = p @ m @ s \<and> length p = k \<and> [] \<in> set (ends (flag_i pat) (re pat) m)"
    unfolding occurs_at_def by blast
next
  assume "\<exists>p s. x = p @ m @ s \<and> length p = k \<and> [] \<in> set (ends (flag_i pat) (re pat) m)"
  then show "occurs_at pat x k m" by (auto simp: occurs_at_def)
qed

lemma occurs_at_ends:
  assumes "occurs_at pat x k m"
  shows "ends (flag_i pat) (re pat) (drop k x) \<noteq> []"
proof -
  from assms obtain p s where x: "x = p @ m @ s" "length p = k"
    and m: "[] \<in> set (ends (flag_i pat) (re pat) m)"
    unfolding occurs_at_split by blast
  from ends_extend [OF m, of s] have "s \<in> set (ends (flag_i pat) (re pat) (m @ s))" by simp
  with x show ?thesis by auto
qed

text \<open>A search fails exactly when the pattern occurs nowhere.\<close>

lemma search_None_iff:
  "search (flag_i pat) (re pat) x = None \<longleftrightarrow> (\<forall>k m. \<not> occurs_at pat x k m)"
proof
  assume "search (flag_i pat) (re pat) x = None"
  then show "\<forall>k m. \<not> occurs_at pat x k m"
    using search_None occurs_at_ends by blast
next
  assume n: "\<forall>k m. \<not> occurs_at pat x k m"
  show "search (flag_i pat) (re pat) x = None"
  proof (rule ccontr)
    assume "search (flag_i pat) (re pat) x \<noteq> None"
    then obtain m y where "search (flag_i pat) (re pat) x = Some (m, y)" by auto
    from search_Some [OF this] obtain p ys where x: "x = p @ m @ y"
      and e: "ends (flag_i pat) (re pat) (m @ y) = y # ys" by blast
    from e have "y \<in> set (ends (flag_i pat) (re pat) (m @ y))" by simp
    then have "[] \<in> set (ends (flag_i pat) (re pat) m)" by (simp add: ends_whole)
    with x have "occurs_at pat x (length p) m" unfolding occurs_at_split by blast
    with n show False by blast
  qed
qed

text \<open>
  A search that succeeds returns an occurrence at the least position at which the pattern
  occurs, and the text after it.
\<close>

lemma search_leftmost:
  assumes "search (flag_i pat) (re pat) x = Some (m, y)"
  shows "\<exists>p. x = p @ m @ y \<and> occurs_at pat x (length p) m \<and>
           (\<forall>k m'. occurs_at pat x k m' \<longrightarrow> length p \<le> k)"
proof -
  from search_Some [OF assms] obtain p ys where x: "x = p @ m @ y"
    and e: "ends (flag_i pat) (re pat) (m @ y) = y # ys"
    and l: "\<forall>k < length p. ends (flag_i pat) (re pat) (drop k x) = []" by blast
  from e have "y \<in> set (ends (flag_i pat) (re pat) (m @ y))" by simp
  then have "[] \<in> set (ends (flag_i pat) (re pat) m)" by (simp add: ends_whole)
  with x have "occurs_at pat x (length p) m" unfolding occurs_at_split by blast
  moreover have "\<forall>k m'. occurs_at pat x k m' \<longrightarrow> length p \<le> k"
    using l occurs_at_ends by (meson not_le)
  ultimately show ?thesis using x by blast
qed

lemma occurs_at_shift: "occurs_at pat y k m \<Longrightarrow> occurs_at pat (p @ y) (length p + k) m"
  unfolding occurs_at_split by (metis append.assoc length_append)

lemma match_all_unfold:
  "match_all ic r x =
     (case search ic r x of
        None \<Rightarrow> []
      | Some (m, y) \<Rightarrow>
          m # (if m = [] then (case y of [] \<Rightarrow> [] | _ # y' \<Rightarrow> match_all ic r y')
               else match_all ic r y))"
  by (rule match_all.simps)

text \<open>Every match that a global search collects is an occurrence.\<close>

lemma match_all_occurs:
  "m \<in> set (match_all (flag_i pat) (re pat) x) \<Longrightarrow> \<exists>k. occurs_at pat x k m"
proof (induction "length x" arbitrary: x rule: less_induct)
  case less
  show ?case
  proof (cases "search (flag_i pat) (re pat) x")
    case None
    with less.prems show ?thesis by (subst (asm) match_all.simps) simp
  next
    case (Some a)
    obtain m0 y where s: "search (flag_i pat) (re pat) x = Some (m0, y)"
      using Some by (cases a) simp
    from search_leftmost [OF s] obtain p where x: "x = p @ m0 @ y"
      and o: "occurs_at pat x (length p) m0" by blast
    have u: "match_all (flag_i pat) (re pat) x =
        m0 # (if m0 = [] then (case y of [] \<Rightarrow> [] | _ # y' \<Rightarrow> match_all (flag_i pat) (re pat) y')
              else match_all (flag_i pat) (re pat) y)"
      by (subst match_all.simps) (simp add: s)
    show ?thesis
    proof (cases "m = m0")
      case True
      with o show ?thesis by blast
    next
      case False
      show ?thesis
      proof (cases "m0 = []")
        case True
        with less.prems u False obtain c y' where y: "y = c # y'"
          and m: "m \<in> set (match_all (flag_i pat) (re pat) y')"
          by (auto split: list.splits)
        have "length y' < length x" using x y by simp
        from less.hyps [OF this m] obtain k where "occurs_at pat y' k m" by blast
        from occurs_at_shift [OF this, of "p @ m0 @ [c]"] x y show ?thesis by auto
      next
        case F: False
        with less.prems u False have m: "m \<in> set (match_all (flag_i pat) (re pat) y)" by simp
        have "length y < length x" using x F by simp
        from less.hyps [OF this m] obtain k where "occurs_at pat y k m" by blast
        from occurs_at_shift [OF this, of "p @ m0"] x show ?thesis by auto
      qed
    qed
  qed
qed

lemma match_all_Nil_iff:
  "match_all (flag_i pat) (re pat) x = [] \<longleftrightarrow> (\<forall>k m. \<not> occurs_at pat x k m)"
  by (subst match_all.simps) (auto simp flip: search_None_iff split: option.splits)




lemma str_match_global:
  "flag_g pat \<Longrightarrow> str_match pat x = (if occurrences pat x = [] then None else Some (occurrences pat x))"
  by (simp add: str_match_def occurrences_def split: list.splits)

section \<open>One file\<close>

lemma check_cases:
  "check fnd p content pat vs = vs \<or>
   (\<exists>l. check fnd p content pat vs = vs @ [fnd (length vs + 1) p l])"
  by (auto simp: check_def split: option.splits)

lemma new_for_append: "new_for p (xs @ ys) \<longleftrightarrow> new_for p xs \<and> new_for p ys"
  by (simp add: new_for_def)

lemma check_new:
  assumes "fnd = secret_finding \<or> fnd = sql_finding \<or> fnd = xss_finding"
  shows "\<exists>new. check fnd p content pat vs = vs @ new \<and> new_for p new"
  using assms check_cases [of fnd p content pat vs]
  by (auto simp: new_for_def secret_finding_def sql_finding_def xss_finding_def)

lemma fold_check_new:
  assumes "fnd = secret_finding \<or> fnd = sql_finding \<or> fnd = xss_finding"
  shows "\<exists>new. fold (check fnd p content) pats vs = vs @ new \<and> new_for p new"
proof (induction pats arbitrary: vs)
  case Nil
  show ?case by (simp add: new_for_def)
next
  case (Cons pat pats)
  from check_new [OF assms, of p content pat vs] obtain n1
    where n1: "check fnd p content pat vs = vs @ n1" "new_for p n1" by blast
  from Cons [of "vs @ n1"] obtain n2
    where n2: "fold (check fnd p content) pats (vs @ n1) = (vs @ n1) @ n2" "new_for p n2" by blast
  from n1 n2 show ?case by (intro exI [of _ "n1 @ n2"]) (simp add: new_for_append)
qed

lemma scan_content_new: "\<exists>new. scan_content p content vs = vs @ new \<and> new_for p new"
proof -
  obtain n1 where n1: "fold (check secret_finding p content) secrets vs = vs @ n1" "new_for p n1"
    using fold_check_new [of secret_finding] by blast
  obtain n2 where n2: "fold (check sql_finding p content) sqlInjection (vs @ n1) = (vs @ n1) @ n2"
      "new_for p n2"
    using fold_check_new [of sql_finding] by blast
  obtain n3 where n3: "fold (check xss_finding p content) xss ((vs @ n1) @ n2) = ((vs @ n1) @ n2) @ n3"
      "new_for p n3"
    using fold_check_new [of xss_finding] by blast
  from n1 n2 n3 show ?thesis
    by (intro exI [of _ "n1 @ n2 @ n3"]) (simp add: scan_content_def new_for_append)
qed

section \<open>The loop over the files\<close>

lemma scan_file_not_blob: "type f \<noteq> ''blob'' \<Longrightarrow> scan_file srv token projectPath f st = st"
  by (cases st) (simp add: scan_file_def)

lemma scan_file_failed:
  "type f = ''blob'' \<Longrightarrow> getFileContent srv token projectPath (path f) = Inl e \<Longrightarrow>
     scan_file srv token projectPath f (vs, calls) = (vs, calls @ [GetFileContent projectPath (path f)])"
  by (simp add: scan_file_def)

lemma scan_file_new:
  "\<exists>new calls'. scan_file srv token projectPath f (vs, calls) = (vs @ new, calls') \<and>
     list_all (from_files srv token projectPath [f]) new"
proof (cases "type f = ''blob''")
  case False
  then show ?thesis by (simp add: scan_file_def)
next
  case True
  show ?thesis
  proof (cases "getFileContent srv token projectPath (path f)")
    case (Inl e)
    with True show ?thesis by (simp add: scan_file_def)
  next
    case (Inr content)
    from scan_content_new [of "path f" content vs] obtain new
      where "scan_content (path f) content vs = vs @ new" "new_for (path f) new" by blast
    with True Inr show ?thesis
      by (auto simp: scan_file_def new_for_def from_files_def list_all_iff)
  qed
qed

lemma from_files_mono:
  "from_files srv token projectPath fs v \<Longrightarrow> set fs \<subseteq> set gs \<Longrightarrow>
     from_files srv token projectPath gs v"
  by (auto simp: from_files_def list_ex_iff)

lemma fold_scan_file:
  "\<exists>new calls'. fold (scan_file srv token projectPath) files (vs, calls) = (vs @ new, calls') \<and>
     list_all (from_files srv token projectPath files) new"
proof (induction files arbitrary: vs calls)
  case Nil
  show ?case by simp
next
  case (Cons f files)
  from scan_file_new [of srv token projectPath f vs calls] obtain n1 c1
    where n1: "scan_file srv token projectPath f (vs, calls) = (vs @ n1, c1)"
      "list_all (from_files srv token projectPath [f]) n1" by blast
  from Cons [of "vs @ n1" c1] obtain n2 c2
    where n2: "fold (scan_file srv token projectPath) files (vs @ n1, c1) = ((vs @ n1) @ n2, c2)"
      "list_all (from_files srv token projectPath files) n2" by blast
  have "list_all (from_files srv token projectPath (f # files)) (n1 @ n2)"
    using n1(2) n2(2) from_files_mono [of srv token projectPath _ _ "f # files"]
    by (auto simp: list_all_iff)
  with n1(1) n2(1) show ?case by (intro exI [of _ "n1 @ n2"] exI [of _ c2]) simp
qed

lemma scanFiles_from_files:
  "list_all (from_files srv token projectPath files) (fst (scanFiles files srv token projectPath calls))"
  using fold_scan_file [of srv token projectPath files "[]" calls]
  by (auto simp: scanFiles_def)

section \<open>The route\<close>

lemma POST_success:
  assumes "truthy projectPath" "truthy token"
    and "getProject srv token projectPath = Inr proj" "truthy proj"
    and "getRepositoryFiles srv token projectPath = Inr files"
    and "scanFiles files srv token projectPath
           [GetProject projectPath, GetRepositoryFiles projectPath] = (vs, calls)"
  shows "POST srv (Body projectPath token) =
     (\<lparr>status = 200,
       body = Report
         \<lparr>project = proj,
          stats =
            \<lparr>totalFiles = length files, scannedFiles = length files, vulnerabilities = length vs,
             critical = length (filter (\<lambda>v. severity v = ''Critical'') vs),
             high = length (filter (\<lambda>v. severity v = ''High'') vs),
             medium = length (filter (\<lambda>v. severity v = ''Medium'') vs),
             low = length (filter (\<lambda>v. severity v = ''Low'') vs)\<rparr>,
          findings = vs\<rparr>\<rparr>,
      calls)"
  using assms by (simp add: POST_def)

lemma POST_Report:
  assumes "POST srv request = (rep, calls)" "body rep = Report r"
  shows "\<exists>projectPath token files.
     request = Body projectPath token \<and> truthy projectPath \<and> truthy token \<and>
     getProject srv token projectPath = Inr (project r) \<and> truthy (project r) \<and>
     getRepositoryFiles srv token projectPath = Inr files \<and>
     scanFiles files srv token projectPath
       [GetProject projectPath, GetRepositoryFiles projectPath] = (findings r, calls) \<and>
     status rep = 200 \<and>
     stats r =
       \<lparr>totalFiles = length files, scannedFiles = length files,
        vulnerabilities = length (findings r),
        critical = length (filter (\<lambda>v. severity v = ''Critical'') (findings r)),
        high = length (filter (\<lambda>v. severity v = ''High'') (findings r)),
        medium = length (filter (\<lambda>v. severity v = ''Medium'') (findings r)),
        low = length (filter (\<lambda>v. severity v = ''Low'') (findings r))\<rparr>"
  using assms
  by (auto simp: POST_def failed_def split: request_body.splits if_splits sum.splits prod.splits)

text \<open>The branch \<open>if (!project)\<close>: the project request succeeds and its JSON body is falsy.\<close>

lemma POST_falsy_project:
  assumes "truthy projectPath" and "truthy token"
    and "getProject srv token projectPath = Inr proj" and "\<not> truthy proj"
  shows "POST srv (Body projectPath token) =
     (\<lparr>status = 404, body = Message ''Repository not found''\<rparr>, [GetProject projectPath])"
  using assms by (simp add: POST_def)

lemma severity_counts:
  assumes "list_all (\<lambda>v. severity v = ''Critical'' \<or> severity v = ''High'') vs"
  shows "length vs = length (filter (\<lambda>v. severity v = ''Critical'') vs) +
                     length (filter (\<lambda>v. severity v = ''High'') vs)"
    and "filter (\<lambda>v. severity v = ''Medium'') vs = []"
    and "filter (\<lambda>v. severity v = ''Low'') vs = []"
  using assms by (induction vs) auto

section \<open>The scenarios, evaluated\<close>

lemma scan_sql_text: "scan_content p sql_text vs = vs @ [sql_finding (length vs + 1) p 1]"
  by code_simp

lemma demo_calls:
  "truthy (JStr ''group/demo'')" "truthy (JStr ''glpat-demo'')" "truthy demo_project"
  "getProject (server files raw) (JStr ''glpat-demo'') (JStr ''group/demo'') = Inr demo_project"
  "getRepositoryFiles (server files raw) (JStr ''glpat-demo'') (JStr ''group/demo'') = Inr files"
  "getFileContent (server files raw) (JStr ''glpat-demo'') (JStr ''group/demo'') p = api_fetch (raw p)"
  by (simp_all add: server_def getProject_def getRepositoryFiles_def getFileContent_def
        api_fetch_def demo_project_def)

lemma POST_binary_repo:
  "POST binary_repo demo_request =
     (\<lparr>status = 200,
       body = Report
         \<lparr>project = demo_project,
          stats = \<lparr>totalFiles = 1, scannedFiles = 1, vulnerabilities = 0, critical = 0,
                   high = 0, medium = 0, low = 0\<rparr>,
          findings = []\<rparr>\<rparr>,
      [GetProject (JStr ''group/demo''), GetRepositoryFiles (JStr ''group/demo''),
       GetFileContent (JStr ''group/demo'') ''logo.bin''])"
proof -
  have "scanFiles [\<lparr>type = ''blob'', path = ''logo.bin''\<rparr>]
          (server [\<lparr>type = ''blob'', path = ''logo.bin''\<rparr>] (\<lambda>p. Response True ''OK'' None))
          (JStr ''glpat-demo'') (JStr ''group/demo'')
          [GetProject (JStr ''group/demo''), GetRepositoryFiles (JStr ''group/demo'')] =
        ([], [GetProject (JStr ''group/demo''), GetRepositoryFiles (JStr ''group/demo''),
              GetFileContent (JStr ''group/demo'') ''logo.bin''])"
    by (simp add: scanFiles_def scan_file_def demo_calls api_fetch_def)
  from POST_success [OF demo_calls(1,2,4,3,5) this] show ?thesis
    by (simp add: binary_repo_def demo_request_def)
qed

lemma POST_directory_repo:
  "POST directory_repo demo_request =
     (\<lparr>status = 200,
       body = Report
         \<lparr>project = demo_project,
          stats = \<lparr>totalFiles = 1, scannedFiles = 1, vulnerabilities = 0, critical = 0,
                   high = 0, medium = 0, low = 0\<rparr>,
          findings = []\<rparr>\<rparr>,
      [GetProject (JStr ''group/demo''), GetRepositoryFiles (JStr ''group/demo'')])"
proof -
  have "scanFiles [\<lparr>type = ''tree'', path = ''src''\<rparr>]
          (server [\<lparr>type = ''tree'', path = ''src''\<rparr>] (\<lambda>p. Response True ''OK'' (Some [])))
          (JStr ''glpat-demo'') (JStr ''group/demo'')
          [GetProject (JStr ''group/demo''), GetRepositoryFiles (JStr ''group/demo'')] =
        ([], [GetProject (JStr ''group/demo''), GetRepositoryFiles (JStr ''group/demo'')])"
    by (simp add: scanFiles_def scan_file_def)
  from POST_success [OF demo_calls(1,2,4,3,5) this] show ?thesis
    by (simp add: directory_repo_def demo_request_def)
qed

lemma POST_sql_repo:
  "POST sql_repo demo_request =
     (\<lparr>status = 200,
       body = Report
         \<lparr>project = demo_project,
          stats = \<lparr>totalFiles = 2, scannedFiles = 2, vulnerabilities = 1, critical = 0,
                   high = 1, medium = 0, low = 0\<rparr>,
          findings = [sql_finding 1 ''db.sql'' 1]\<rparr>\<rparr>,
      [GetProject (JStr ''group/demo''), GetRepositoryFiles (JStr ''group/demo''),
       GetFileContent (JStr ''group/demo'') ''db.sql''])"
proof -
  have "scanFiles [\<lparr>type = ''tree'', path = ''src''\<rparr>, \<lparr>type = ''blob'', path = ''db.sql''\<rparr>]
          (server [\<lparr>type = ''tree'', path = ''src''\<rparr>, \<lparr>type = ''blob'', path = ''db.sql''\<rparr>]
             (\<lambda>p. Response True ''OK'' (Some sql_text)))
          (JStr ''glpat-demo'') (JStr ''group/demo'')
          [GetProject (JStr ''group/demo''), GetRepositoryFiles (JStr ''group/demo'')] =
        ([sql_finding 1 ''db.sql'' 1],
         [GetProject (JStr ''group/demo''), GetRepositoryFiles (JStr ''group/demo''),
          GetFileContent (JStr ''group/demo'') ''db.sql''])"
    by (simp add: scanFiles_def scan_file_def demo_calls api_fetch_def scan_sql_text)
  from POST_success [OF demo_calls(1,2,4,3,5) this] show ?thesis
    by (simp add: sql_repo_def demo_request_def sql_finding_def)
qed

section \<open>The claims about the route\<close>

text \<open>
  C7.  When the project path or the token is missing from the request, the route answers 400
  with the message \<open>Project path and token are required\<close> and has made no call to the
  GitLab client.
\<close>

theorem POST_missing_input:
  "projectPath = JUndefined \<or> token = JUndefined \<Longrightarrow>
     POST srv (Body projectPath token) =
       (\<lparr>status = 400, body = Message ''Project path and token are required''\<rparr>, [])"
  by (auto simp: POST_def)

theorem POST_missing_input_witness:
  "POST sql_repo (Body (JStr ''group/demo'') JUndefined) =
     (\<lparr>status = 400, body = Message ''Project path and token are required''\<rparr>, [])"
  using POST_missing_input [of "JStr ''group/demo''" JUndefined sql_repo] by simp

text \<open>
  C6.  The GitLab client reports a project that does not exist by a response that is not
  \<open>ok\<close>, on which \<open>fetch\<close> throws: the route then answers 500 with
  \<open>Failed to scan repository\<close>, not 404 with \<open>Repository not found\<close>.
\<close>

theorem POST_project_not_ok:
  assumes "truthy projectPath" and "truthy token"
    and "project_endpoint srv token projectPath = Response False statusText b"
  shows "POST srv (Body projectPath token) =
     (\<lparr>status = 500, body = Message ''Failed to scan repository''\<rparr>, [GetProject projectPath])"
  using assms by (simp add: POST_def getProject_def api_fetch_def failed_def)

theorem POST_project_not_ok_witness:
  "project_endpoint sql_repo (JStr ''glpat-demo'') (JStr ''group/none'') =
     Response False ''Not Found'' (Some (JObj ''{message: 404 Project Not Found}'')) \<and>
   POST sql_repo (Body (JStr ''group/none'') (JStr ''glpat-demo'')) =
     (\<lparr>status = 500, body = Message ''Failed to scan repository''\<rparr>,
      [GetProject (JStr ''group/none'')])"
proof -
  have e: "project_endpoint sql_repo (JStr ''glpat-demo'') (JStr ''group/none'') =
     Response False ''Not Found'' (Some (JObj ''{message: 404 Project Not Found}''))"
    by (simp add: sql_repo_def server_def)
  from POST_project_not_ok [OF _ _ e] e show ?thesis by simp
qed

text \<open>
  C3.  In every report, the \<open>vulnerabilities\<close> counter is the length of the list of
  findings, and it is the sum of the four counters by severity.
\<close>

theorem report_counts_agree:
  assumes "POST srv request = (rep, calls)" and "body rep = Report r"
  shows "vulnerabilities (stats r) = length (findings r) \<and>
         vulnerabilities (stats r) =
           critical (stats r) + high (stats r) + medium (stats r) + low (stats r)"
proof -
  from POST_Report [OF assms] obtain projectPath token files where
    s: "scanFiles files srv token projectPath
          [GetProject projectPath, GetRepositoryFiles projectPath] = (findings r, calls)"
    and st: "stats r =
       \<lparr>totalFiles = length files, scannedFiles = length files,
        vulnerabilities = length (findings r),
        critical = length (filter (\<lambda>v. severity v = ''Critical'') (findings r)),
        high = length (filter (\<lambda>v. severity v = ''High'') (findings r)),
        medium = length (filter (\<lambda>v. severity v = ''Medium'') (findings r)),
        low = length (filter (\<lambda>v. severity v = ''Low'') (findings r))\<rparr>"
    by blast
  have "list_all (\<lambda>v. severity v = ''Critical'' \<or> severity v = ''High'') (findings r)"
    using scanFiles_from_files [of srv token projectPath files
        "[GetProject projectPath, GetRepositoryFiles projectPath]"] s
    by (simp add: list_all_iff from_files_def)
  from severity_counts [OF this] show ?thesis by (simp add: st)
qed

theorem report_counts_agree_witness:
  "vulnerabilities \<lparr>totalFiles = 2, scannedFiles = 2, vulnerabilities = 1, critical = 0,
                    high = 1, medium = 0, low = 0\<rparr> = length [sql_finding 1 ''db.sql'' 1] \<and>
   (1::nat) = 0 + 1 + 0 + 0"
  using report_counts_agree [OF POST_sql_repo] by simp

text \<open>
  C9.  Every finding of a report has severity \<open>Critical\<close> or \<open>High\<close>, so the \<open>medium\<close>
  and \<open>low\<close> counters of every report are 0.
\<close>

theorem report_severities:
  assumes "POST srv request = (rep, calls)" and "body rep = Report r"
  shows "(\<forall>v \<in> set (findings r). severity v = ''Critical'' \<or> severity v = ''High'') \<and>
         medium (stats r) = 0 \<and> low (stats r) = 0"
proof -
  from POST_Report [OF assms] obtain projectPath token files where
    s: "scanFiles files srv token projectPath
          [GetProject projectPath, GetRepositoryFiles projectPath] = (findings r, calls)"
    and st: "stats r =
       \<lparr>totalFiles = length files, scannedFiles = length files,
        vulnerabilities = length (findings r),
        critical = length (filter (\<lambda>v. severity v = ''Critical'') (findings r)),
        high = length (filter (\<lambda>v. severity v = ''High'') (findings r)),
        medium = length (filter (\<lambda>v. severity v = ''Medium'') (findings r)),
        low = length (filter (\<lambda>v. severity v = ''Low'') (findings r))\<rparr>"
    by blast
  have a: "list_all (\<lambda>v. severity v = ''Critical'' \<or> severity v = ''High'') (findings r)"
    using scanFiles_from_files [of srv token projectPath files
        "[GetProject projectPath, GetRepositoryFiles projectPath]"] s
    by (simp add: list_all_iff from_files_def)
  from severity_counts(2,3) [OF a] a show ?thesis by (simp add: st list_all_iff)
qed

theorem report_severities_witness:
  "severity (sql_finding 1 ''db.sql'' 1) = ''High'' \<and>
   medium \<lparr>totalFiles = 2, scannedFiles = 2, vulnerabilities = 1, critical = 0,
           high = 1, medium = 0, low = 0\<rparr> = 0"
  using report_severities [OF POST_sql_repo] by (simp add: sql_finding_def)

section \<open>The file counters\<close>

text \<open>
  C1 (as the code has it).  When the content of a blob of the tree cannot be fetched, the scan
  still ends in a report: the turn of the loop for that blob leaves the findings as they are,
  no finding of the report names its path, and the blob is counted in \<open>totalFiles\<close> and
  in \<open>scannedFiles\<close> alike, both being the length of the file list.
\<close>

theorem unreadable_blob_counted:
  assumes "truthy projectPath" and "truthy token"
    and "getProject srv token projectPath = Inr proj" and "truthy proj"
    and "getRepositoryFiles srv token projectPath = Inr files"
    and "f \<in> set files" and "type f = ''blob''"
    and "getFileContent srv token projectPath (path f) = Inl e"
  shows "\<exists>r calls.
     POST srv (Body projectPath token) = (\<lparr>status = 200, body = Report r\<rparr>, calls) \<and>
     (\<forall>vs cs. fst (scan_file srv token projectPath f (vs, cs)) = vs) \<and>
     (\<forall>v \<in> set (findings r). vfile v \<noteq> path f) \<and>
     totalFiles (stats r) = length files \<and> scannedFiles (stats r) = length files"
proof -
  obtain vs calls where s: "scanFiles files srv token projectPath
      [GetProject projectPath, GetRepositoryFiles projectPath] = (vs, calls)"
    by (cases "scanFiles files srv token projectPath
      [GetProject projectPath, GetRepositoryFiles projectPath]")
  have "list_all (from_files srv token projectPath files) vs"
    using scanFiles_from_files [of srv token projectPath files
        "[GetProject projectPath, GetRepositoryFiles projectPath]"] s by simp
  then have "\<forall>v \<in> set vs. vfile v \<noteq> path f"
    using assms(8) by (auto simp: list_all_iff from_files_def list_ex_iff)
  moreover have "\<forall>vs cs. fst (scan_file srv token projectPath f (vs, cs)) = vs"
    using scan_file_failed [OF assms(7,8)] by simp
  ultimately show ?thesis
    using POST_success [OF assms(1,2,3,4,5) s] by simp
qed

theorem unreadable_blob_counted_witness:
  "getFileContent binary_repo (JStr ''glpat-demo'') (JStr ''group/demo'') ''logo.bin'' =
     Inl BodyRejected \<and>
   POST binary_repo demo_request =
     (\<lparr>status = 200,
       body = Report
         \<lparr>project = demo_project,
          stats = \<lparr>totalFiles = 1, scannedFiles = 1, vulnerabilities = 0, critical = 0,
                   high = 0, medium = 0, low = 0\<rparr>,
          findings = []\<rparr>\<rparr>,
      [GetProject (JStr ''group/demo''), GetRepositoryFiles (JStr ''group/demo''),
       GetFileContent (JStr ''group/demo'') ''logo.bin''])"
proof -
  let ?f = "\<lparr>type = ''blob'', path = ''logo.bin''\<rparr>"
  have e: "getFileContent binary_repo (JStr ''glpat-demo'') (JStr ''group/demo'') (path ?f) =
      Inl BodyRejected"
    by (simp add: binary_repo_def demo_calls api_fetch_def)
  have "\<exists>r calls.
     POST binary_repo (Body (JStr ''group/demo'') (JStr ''glpat-demo'')) =
       (\<lparr>status = 200, body = Report r\<rparr>, calls) \<and>
     (\<forall>vs cs. fst (scan_file binary_repo (JStr ''glpat-demo'') (JStr ''group/demo'') ?f (vs, cs)) = vs) \<and>
     (\<forall>v \<in> set (findings r). vfile v \<noteq> path ?f) \<and>
     totalFiles (stats r) = length [?f] \<and> scannedFiles (stats r) = length [?f]"
    by (rule unreadable_blob_counted [OF demo_calls(1,2) _ demo_calls(3) _ _ _ e])
       (simp_all add: binary_repo_def demo_calls)
  with e show ?thesis using POST_binary_repo by simp
qed

text \<open>
  C1 as stated fails: the only blob of \<open>binary_repo\<close> cannot be read, no blob was fetched,
  and the report counts one scanned file.
\<close>

theorem unreadable_blob_counterexample:
  "getRepositoryFiles binary_repo (JStr ''glpat-demo'') (JStr ''group/demo'') =
     Inr [\<lparr>type = ''blob'', path = ''logo.bin''\<rparr>] \<and>
   getFileContent binary_repo (JStr ''glpat-demo'') (JStr ''group/demo'') ''logo.bin'' =
     Inl BodyRejected \<and>
   fetched_count binary_repo (JStr ''glpat-demo'') (JStr ''group/demo'')
     [\<lparr>type = ''blob'', path = ''logo.bin''\<rparr>] = 0 \<and>
   map_option (scannedFiles \<circ> stats) (report_of (fst (POST binary_repo demo_request))) = Some 1"
  by (simp add: POST_binary_repo report_of_def fetched_count_def)
     (simp add: binary_repo_def demo_calls api_fetch_def)

text \<open>
  C2 (as the code has it).  In every report \<open>totalFiles\<close> and \<open>scannedFiles\<close> are both
  the number of entries of the file list, whatever their type; an entry that is not a blob
  is counted in both, although its turn of the loop fetches nothing and adds no finding.
\<close>

theorem file_counters_are_list_length:
  assumes "truthy projectPath" and "truthy token"
    and "getProject srv token projectPath = Inr proj" and "truthy proj"
    and "getRepositoryFiles srv token projectPath = Inr files"
  shows "\<exists>r calls.
     POST srv (Body projectPath token) = (\<lparr>status = 200, body = Report r\<rparr>, calls) \<and>
     totalFiles (stats r) = length files \<and> scannedFiles (stats r) = length files \<and>
     (\<forall>f st. type f \<noteq> ''blob'' \<longrightarrow> scan_file srv token projectPath f st = st)"
proof -
  obtain vs calls where s: "scanFiles files srv token projectPath
      [GetProject projectPath, GetRepositoryFiles projectPath] = (vs, calls)"
    by (cases "scanFiles files srv token projectPath
      [GetProject projectPath, GetRepositoryFiles projectPath]")
  show ?thesis
    using POST_success [OF assms s] by (simp add: scan_file_not_blob)
qed

theorem file_counters_are_list_length_witness:
  "POST directory_repo demo_request =
     (\<lparr>status = 200,
       body = Report
         \<lparr>project = demo_project,
          stats = \<lparr>totalFiles = length [\<lparr>type = ''tree'', path = ''src''\<rparr>],
                   scannedFiles = length [\<lparr>type = ''tree'', path = ''src''\<rparr>],
                   vulnerabilities = 0, critical = 0, high = 0, medium = 0, low = 0\<rparr>,
          findings = []\<rparr>\<rparr>,
      [GetProject (JStr ''group/demo''), GetRepositoryFiles (JStr ''group/demo'')])"
proof -
  have "\<exists>r calls.
     POST directory_repo (Body (JStr ''group/demo'') (JStr ''glpat-demo'')) =
       (\<lparr>status = 200, body = Report r\<rparr>, calls) \<and>
     totalFiles (stats r) = length [\<lparr>type = ''tree'', path = ''src''\<rparr>] \<and>
     scannedFiles (stats r) = length [\<lparr>type = ''tree'', path = ''src''\<rparr>] \<and>
     (\<forall>f st. type f \<noteq> ''blob'' \<longrightarrow>
        scan_file directory_repo (JStr ''glpat-demo'') (JStr ''group/demo'') f st = st)"
    by (rule file_counters_are_list_length [OF demo_calls(1,2) _ demo_calls(3)])
       (simp_all add: directory_repo_def demo_calls)
  then show ?thesis using POST_directory_repo by simp
qed

text \<open>
  C2 as stated fails: the tree of \<open>directory_repo\<close> is one directory and no blob, and the
  report counts one file.
\<close>

theorem directory_counted_counterexample:
  "getRepositoryFiles directory_repo (JStr ''glpat-demo'') (JStr ''group/demo'') =
     Inr [\<lparr>type = ''tree'', path = ''src''\<rparr>] \<and>
   blob_count [\<lparr>type = ''tree'', path = ''src''\<rparr>] = 0 \<and>
   map_option (totalFiles \<circ> stats) (report_of (fst (POST directory_repo demo_request))) = Some 1 \<and>
   map_option (scannedFiles \<circ> stats) (report_of (fst (POST directory_repo demo_request))) = Some 1"
  by (simp add: POST_directory_repo report_of_def blob_count_def)
     (simp add: directory_repo_def demo_calls)

section \<open>The line of an occurrence\<close>





section \<open>First match only\<close>














section \<open>The SQL scenario\<close>

text \<open>
  C8 (as the code has it).  Scanning a blob whose content is
  \<open>SELECT * FROM users WHERE name = 'admin'\<close> adds exactly one finding, with type
  \<open>Code Vulnerability\<close>, title \<open>Potential SQL Injection in\<close> followed by the path,
  severity \<open>High\<close> and line 1.
\<close>

theorem sql_scenario_finding:
  assumes "getFileContent srv token projectPath p = Inr sql_text"
  shows "scan_file srv token projectPath \<lparr>type = ''blob'', path = p\<rparr> (vs, calls) =
     (vs @
      [\<lparr>vid = length vs + 1, title = ''Potential SQL Injection in '' @ p, severity = ''High'',
        vtype = ''Code Vulnerability'', vfile = p, line = 1,
        description = ''Unsanitized SQL query detected.'',
        impact = ''Potential database compromise.''\<rparr>],
      calls @ [GetFileContent projectPath p])"
  using assms by (simp add: scan_file_def scan_sql_text sql_finding_def)

theorem sql_scenario_finding_witness:
  "getFileContent sql_repo (JStr ''glpat-demo'') (JStr ''group/demo'') ''db.sql'' = Inr sql_text \<and>
   scan_file sql_repo (JStr ''glpat-demo'') (JStr ''group/demo'')
     \<lparr>type = ''blob'', path = ''db.sql''\<rparr> ([], []) =
     ([\<lparr>vid = 1, title = ''Potential SQL Injection in db.sql'', severity = ''High'',
        vtype = ''Code Vulnerability'', vfile = ''db.sql'', line = 1,
        description = ''Unsanitized SQL query detected.'',
        impact = ''Potential database compromise.''\<rparr>],
      [GetFileContent (JStr ''group/demo'') ''db.sql''])"
proof -
  have e: "getFileContent sql_repo (JStr ''glpat-demo'') (JStr ''group/demo'') ''db.sql'' =
      Inr sql_text"
    by (simp add: sql_repo_def demo_calls api_fetch_def)
  from sql_scenario_finding [OF e, of "[]" "[]"] e show ?thesis by simp
qed

text \<open>
  C8 as stated fails: the one finding of the scenario has the type \<open>Code Vulnerability\<close>,
  and no field of it is the token \<open>SqlInjection\<close>.
\<close>

theorem sql_scenario_counterexample:
  "map_option findings (report_of (fst (POST sql_repo demo_request))) =
     Some [\<lparr>vid = 1, title = ''Potential SQL Injection in db.sql'', severity = ''High'',
            vtype = ''Code Vulnerability'', vfile = ''db.sql'', line = 1,
            description = ''Unsanitized SQL query detected.'',
            impact = ''Potential database compromise.''\<rparr>] \<and>
   ''Code Vulnerability'' \<noteq> ''SqlInjection''"
  by (simp add: POST_sql_repo report_of_def sql_finding_def)

section \<open>scanForSecrets\<close>

lemma first_choice_hd:
  "first_choice pat m rest \<longleftrightarrow> (\<exists>ys. ends (flag_i pat) (re pat) (m @ rest) = rest # ys)"
  by (auto simp: first_choice_def split: list.splits)

text \<open>
  For a pattern that does not match the empty text, what the loop of a global search
  collects is what \<open>global_matches\<close> describes.
\<close>

lemma global_matches_match_all:
  assumes ne: "ends (flag_i pat) (re pat) [] = []"
  shows "global_matches pat x (match_all (flag_i pat) (re pat) x)"
proof (induction "length x" arbitrary: x rule: less_induct)
  case less
  show ?case
  proof (cases "search (flag_i pat) (re pat) x")
    case None
    then have "match_all (flag_i pat) (re pat) x = []" by (subst match_all.simps) simp
    moreover from None have "\<forall>k m. \<not> occurs_at pat x k m" by (simp add: search_None_iff)
    ultimately show ?thesis by (simp add: global_matches.none)
  next
    case (Some a)
    obtain m y where s: "search (flag_i pat) (re pat) x = Some (m, y)"
      using Some by (cases a) simp
    from search_Some [OF s] obtain p ys where x: "x = p @ m @ y"
      and e: "ends (flag_i pat) (re pat) (m @ y) = y # ys" by blast
    from search_leftmost [OF s] x have o: "occurs_at pat x (length p) m"
      and l: "\<forall>k m'. occurs_at pat x k m' \<longrightarrow> length p \<le> k"
      by auto
    from o have "[] \<in> set (ends (flag_i pat) (re pat) m)" by (simp add: occurs_at_def)
    with ne have m: "m \<noteq> []" by auto
    have f: "first_choice pat m y" using e by (simp add: first_choice_hd)
    have "length y < length x" using x m by simp
    then have "global_matches pat y (match_all (flag_i pat) (re pat) y)" by (rule less.hyps)
    from global_matches.more [OF x o l f m this]
    have "global_matches pat x (m # match_all (flag_i pat) (re pat) y)" .
    moreover have "match_all (flag_i pat) (re pat) x = m # match_all (flag_i pat) (re pat) y"
      using s m by (subst match_all.simps) simp
    ultimately show ?thesis by simp
  qed
qed

text \<open>The description leaves no choice: a text has one list of global matches.\<close>

lemma global_matches_unique:
  "global_matches pat x ms \<Longrightarrow> global_matches pat x ms' \<Longrightarrow> ms = ms'"
proof (induction arbitrary: ms' rule: global_matches.induct)
  case (none x)
  from none.prems none.hyps show ?case by (cases rule: global_matches.cases) auto
next
  case (more x p m rest ms)
  from more.prems show ?case
  proof (cases rule: global_matches.cases)
    case none
    with more.hyps(2) show ?thesis by blast
  next
    case (more p' m' rest' ms2)
    have "length p \<le> length p'" "length p' \<le> length p"
      using more.hyps(3) more(3) more(4) more.hyps(2) by blast+
    then have "length p = length p'" by simp
    with more(2) more.hyps(1) have pp: "p = p'" and r: "m @ rest = m' @ rest'" by auto
    from more.hyps(4) more(5) r have "rest = rest'"
      by (auto simp: first_choice_hd)
    with r have "m = m'" by simp
    moreover have "ms = ms2" using more.IH more(7) \<open>rest = rest'\<close> by blast
    ultimately show ?thesis using more(1) by simp
  qed
qed

lemma fold_matches:
  "list_all flag_g pats \<Longrightarrow>
     fold (\<lambda>regex findings.
             case str_match regex code of None \<Rightarrow> findings | Some matches \<Rightarrow> findings @ matches)
          pats acc =
     acc @ concat (map (\<lambda>pat. occurrences pat code) pats)"
  by (induction pats arbitrary: acc) (auto simp: str_match_global)

lemma secret_patterns_flags: "list_all flag_g secret_patterns"
  by (simp add: secret_patterns_def)

lemma secret_patterns_not_empty:
  "list_all (\<lambda>pat. ends (flag_i pat) (re pat) [] = []) secret_patterns"
  by code_simp

text \<open>
  C10 (as the code has it).  \<open>scanForSecrets\<close> returns the global matches of the AWS
  pattern, then those of the GitHub pattern, then those of the JSON pattern.  The global
  matches of a pattern are: none when the pattern occurs nowhere in the input; otherwise the
  match taken at the least position at which the pattern occurs, followed by the global
  matches in the text after that match.  A text has only one such list, every string returned
  is an occurrence of its pattern in the input, and the result is empty exactly when no
  pattern occurs in the input.
\<close>

theorem scanForSecrets_global_matches:
  "length secret_patterns = 3 \<and>
   (\<exists>aws ghp json.
      global_matches (secret_patterns ! 0) code aws \<and>
      global_matches (secret_patterns ! 1) code ghp \<and>
      global_matches (secret_patterns ! 2) code json \<and>
      scanForSecrets code = aws @ ghp @ json) \<and>
   (\<forall>pat ms ms'. global_matches pat code ms \<longrightarrow> global_matches pat code ms' \<longrightarrow> ms = ms') \<and>
   (\<forall>s \<in> set (scanForSecrets code).
      \<exists>pat \<in> set secret_patterns. \<exists>k. occurs_at pat code k s) \<and>
   (scanForSecrets code = [] \<longleftrightarrow>
      (\<forall>pat \<in> set secret_patterns. \<forall>k m. \<not> occurs_at pat code k m))"
proof -
  have n: "length secret_patterns = 3" by (simp add: secret_patterns_def)
  have a: "scanForSecrets code = concat (map (\<lambda>pat. occurrences pat code) secret_patterns)"
    unfolding scanForSecrets_def using fold_matches [OF secret_patterns_flags, of code "[]"]
    by simp
  have c: "concat (map (\<lambda>pat. occurrences pat code) secret_patterns) =
      occurrences (secret_patterns ! 0) code @ occurrences (secret_patterns ! 1) code @
      occurrences (secret_patterns ! 2) code"
    by (simp add: secret_patterns_def)
  have g: "global_matches (secret_patterns ! j) code (occurrences (secret_patterns ! j) code)"
    if "j < 3" for j
  proof -
    have "secret_patterns ! j \<in> set secret_patterns" using that n by simp
    then have "ends (flag_i (secret_patterns ! j)) (re (secret_patterns ! j)) [] = []"
      using secret_patterns_not_empty by (simp add: list_all_iff)
    from global_matches_match_all [OF this] show ?thesis by (simp add: occurrences_def)
  qed
  have e: "\<exists>aws ghp json.
      global_matches (secret_patterns ! 0) code aws \<and>
      global_matches (secret_patterns ! 1) code ghp \<and>
      global_matches (secret_patterns ! 2) code json \<and>
      scanForSecrets code = aws @ ghp @ json"
    using g [of 0] g [of 1] g [of 2] a c by auto
  have u: "\<forall>pat ms ms'. global_matches pat code ms \<longrightarrow> global_matches pat code ms' \<longrightarrow> ms = ms'"
    using global_matches_unique by blast
  have b: "\<forall>s \<in> set (scanForSecrets code).
      \<exists>pat \<in> set secret_patterns. \<exists>k. occurs_at pat code k s"
  proof
    fix s assume "s \<in> set (scanForSecrets code)"
    then obtain pat where p: "pat \<in> set secret_patterns"
      "s \<in> set (match_all (flag_i pat) (re pat) code)"
      unfolding a by (auto simp: occurrences_def)
    from match_all_occurs [OF p(2)] p(1)
    show "\<exists>pat \<in> set secret_patterns. \<exists>k. occurs_at pat code k s" by blast
  qed
  have d: "scanForSecrets code = [] \<longleftrightarrow>
      (\<forall>pat \<in> set secret_patterns. \<forall>k m. \<not> occurs_at pat code k m)"
    unfolding a by (simp add: occurrences_def match_all_Nil_iff)
  from n e u b d show ?thesis by blast
qed

theorem scanForSecrets_global_matches_witness:
  "global_matches (secret_patterns ! 0) two_keys
     [''AKIA0123456789ABCDEF'', ''AKIA0123456789ABCDEG''] \<and>
   global_matches (secret_patterns ! 1) two_keys [] \<and>
   global_matches (secret_patterns ! 2) two_keys [] \<and>
   scanForSecrets two_keys = [''AKIA0123456789ABCDEF'', ''AKIA0123456789ABCDEG'']"
proof -
  have ne: "ends (flag_i (secret_patterns ! j)) (re (secret_patterns ! j)) [] = []"
    if "j < 3" for j
  proof -
    have "length secret_patterns = 3" by (simp add: secret_patterns_def)
    with that have "secret_patterns ! j \<in> set secret_patterns" by simp
    then show ?thesis using secret_patterns_not_empty by (simp add: list_all_iff)
  qed
  have "match_all (flag_i (secret_patterns ! 0)) (re (secret_patterns ! 0)) two_keys =
      [''AKIA0123456789ABCDEF'', ''AKIA0123456789ABCDEG'']"
    by code_simp
  with global_matches_match_all [OF ne [of 0], of two_keys]
  have g0: "global_matches (secret_patterns ! 0) two_keys
      [''AKIA0123456789ABCDEF'', ''AKIA0123456789ABCDEG'']" by simp
  have "match_all (flag_i (secret_patterns ! 1)) (re (secret_patterns ! 1)) two_keys = []"
    by code_simp
  with global_matches_match_all [OF ne [of 1], of two_keys]
  have g1: "global_matches (secret_patterns ! 1) two_keys []" by simp
  have "match_all (flag_i (secret_patterns ! 2)) (re (secret_patterns ! 2)) two_keys = []"
    by code_simp
  with global_matches_match_all [OF ne [of 2], of two_keys]
  have g2: "global_matches (secret_patterns ! 2) two_keys []" by simp
  from scanForSecrets_global_matches [of two_keys] obtain aws ghp json where
    r: "global_matches (secret_patterns ! 0) two_keys aws"
      "global_matches (secret_patterns ! 1) two_keys ghp"
      "global_matches (secret_patterns ! 2) two_keys json"
      "scanForSecrets two_keys = aws @ ghp @ json"
    and u: "\<forall>pat ms ms'. global_matches pat two_keys ms \<longrightarrow>
        global_matches pat two_keys ms' \<longrightarrow> ms = ms'"
    by blast
  from u r(1) g0 have "aws = [''AKIA0123456789ABCDEF'', ''AKIA0123456789ABCDEG'']" by blast
  moreover from u r(2) g1 have "ghp = []" by blast
  moreover from u r(3) g2 have "json = []" by blast
  ultimately show ?thesis using r(4) g0 g1 g2 by simp
qed

text \<open>
  C10 as stated fails: \<open>AKIA0123456789012345\<close> is a substring of \<open>aws_text\<close> that matches
  the AWS pattern, and \<open>scanForSecrets\<close> does not return it, because it starts inside the
  match found before it.
\<close>

theorem scanForSecrets_counterexample:
  "occurs_at (secret_patterns ! 0) aws_text 4 ''AKIA0123456789012345'' \<and>
   scanForSecrets aws_text = [''AKIAAKIA012345678901'']"
  by code_simp

end
